theory Spec2Isabelle
  imports Complex_Main "HOL-Library.AList" "HOL-Library.List_Lexorder" "HOL-Library.Char_ord"
begin

section \<open>Field-name canonicalisation (scripts/ga4\_client.py, to\_snake)\<close>

text \<open>
  Python strings are modelled as Isabelle strings; a character is a code point below 256.
  The character classes of the two regular expressions are ASCII ranges.
\<close>

definition is_upper :: "char \<Rightarrow> bool" where
  "is_upper c = (65 \<le> (of_char c :: nat) \<and> (of_char c :: nat) \<le> 90)"

definition is_lower :: "char \<Rightarrow> bool" where
  "is_lower c = (97 \<le> (of_char c :: nat) \<and> (of_char c :: nat) \<le> 122)"

definition is_digit :: "char \<Rightarrow> bool" where
  "is_digit c = (48 \<le> (of_char c :: nat) \<and> (of_char c :: nat) \<le> 57)"

text \<open>The regular expression dot matches every character except the line feed.\<close>

definition re_dot :: "char \<Rightarrow> bool" where
  "re_dot c = (c \<noteq> CHR 0x0A)"

text \<open>
  \<^verbatim>\<open>re.sub(r'(.)([A-Z][a-z]+)', r'\1_\2', name)\<close>: the scan goes from left to right; at a
  position where the pattern matches, the match takes one character, one capital and the
  longest run of lowercase letters after it, an underscore is put after the first character,
  and the scan goes on behind the match. Elsewhere the character is copied.
\<close>

function sub_word :: "string \<Rightarrow> string" where
  "sub_word [] = []"
| "sub_word [c] = [c]"
| "sub_word [c, d] = [c, d]"
| "sub_word (c # d # e # rest) =
     (if re_dot c \<and> is_upper d \<and> is_lower e
      then c # CHR ''_'' # d # takeWhile is_lower (e # rest) @ sub_word (dropWhile is_lower (e # rest))
      else c # sub_word (d # e # rest))"
  by pat_completeness auto
termination
  by (relation "measure length") (auto simp: less_Suc_eq_le intro: le_trans [OF length_dropWhile_le])

text \<open>\<^verbatim>\<open>re.sub(r'([a-z0-9])([A-Z])', r'\1_\2', s)\<close>: a match is two characters.\<close>

fun sub_hump :: "string \<Rightarrow> string" where
  "sub_hump (c # d # rest) =
     (if (is_lower c \<or> is_digit c) \<and> is_upper d
      then c # CHR ''_'' # d # sub_hump rest
      else c # sub_hump (d # rest))"
| "sub_hump s = s"

text \<open>\<^verbatim>\<open>.replace('.', '_')\<close>\<close>

definition replace_dot :: "string \<Rightarrow> string" where
  "replace_dot s = map (\<lambda>c. if c = CHR ''.'' then CHR ''_'' else c) s"

text \<open>
  \<^verbatim>\<open>.lower()\<close> on code points below 256: the capitals A to Z, and the capitals of
  Latin-1 (0xC0 to 0xDE without the multiplication sign 0xD7), move up by 32.
\<close>

definition lower_char :: "char \<Rightarrow> char" where
  "lower_char c =
     (let n = (of_char c :: nat)
      in if (65 \<le> n \<and> n \<le> 90) \<or> (192 \<le> n \<and> n \<le> 222 \<and> n \<noteq> 215)
         then char_of (n + 32) else c)"

definition lower :: "string \<Rightarrow> string" where
  "lower s = map lower_char s"

definition to_snake :: "string \<Rightarrow> string" where
  "to_snake name = lower (replace_dot (sub_hump (sub_word name)))"

text \<open>
  The two substitutions seen as one pass: an underscore goes before a capital \<open>d\<close> that
  follows \<open>p\<close> when \<open>p\<close> is a lowercase letter or a digit (second expression), or when
  \<open>p\<close> is not a line feed and a lowercase letter follows \<open>d\<close> (first expression).
\<close>

definition sep_before :: "char \<Rightarrow> char \<Rightarrow> string \<Rightarrow> bool" where
  "sep_before p d rest =
     (is_upper d \<and> (is_lower p \<or> is_digit p \<or>
        (re_dot p \<and> (case rest of [] \<Rightarrow> False | e # _ \<Rightarrow> is_lower e))))"

fun mark :: "char \<Rightarrow> string \<Rightarrow> string" where
  "mark p [] = []"
| "mark p (d # rest) = (if sep_before p d rest then [CHR ''_''] else []) @ d # mark d rest"

definition separators :: "string \<Rightarrow> string" where
  "separators s = (case s of [] \<Rightarrow> [] | c # rest \<Rightarrow> c # mark c rest)"

definition dot_us :: "char \<Rightarrow> char" where
  "dot_us c = (if c = CHR ''.'' then CHR ''_'' else c)"

section \<open>The analytics client (scripts/ga4\_client.py)\<close>

subsection \<open>Python's float() on a string\<close>

text \<open>
  \<^verbatim>\<open>float(s)\<close> strips white space (the codes 9 to 13 and 32 of ASCII; beyond ASCII
  the white space of Unicode, below 256 the codes 0x85 and 0xA0; the separators 0x1C to 0x1F
  are not stripped), reads an optional sign and then \<^verbatim>\<open>inf\<close>,
  \<^verbatim>\<open>infinity\<close> or \<^verbatim>\<open>nan\<close> in any case, or a decimal number: digits (single
  underscores may separate digits) with an optional fraction and an optional exponent. Any
  other string raises ValueError, which is \<open>None\<close> here. A finite literal denotes its exact
  decimal value; the rounding to double precision is not modelled.
\<close>

datatype pyfloat = Finite rat | PosInf | NegInf | NotANumber

definition is_space :: "char \<Rightarrow> bool" where
  "is_space c =
     (let n = (of_char c :: nat)
      in (9 \<le> n \<and> n \<le> 13) \<or> n = 32 \<or> n = 133 \<or> n = 160)"

definition strip :: "string \<Rightarrow> string" where
  "strip s = rev (dropWhile is_space (rev (dropWhile is_space s)))"

definition digit_val :: "char \<Rightarrow> nat" where
  "digit_val c = of_char c - 48"

fun digits_rest :: "string \<Rightarrow> nat list \<times> string" where
  "digits_rest [] = ([], [])"
| "digits_rest [c] = (if is_digit c then ([digit_val c], []) else ([], [c]))"
| "digits_rest (c # d # s) =
     (if is_digit c then (case digits_rest (d # s) of (ds, r) \<Rightarrow> (digit_val c # ds, r))
      else if c = CHR ''_'' \<and> is_digit d then (case digits_rest s of (ds, r) \<Rightarrow> (digit_val d # ds, r))
      else ([], c # d # s))"

definition digitpart :: "string \<Rightarrow> (nat list \<times> string) option" where
  "digitpart s =
     (case s of
        [] \<Rightarrow> None
      | c # r \<Rightarrow> if is_digit c then (case digits_rest r of (ds, r') \<Rightarrow> Some (digit_val c # ds, r'))
                 else None)"

definition nat_of_digits :: "nat list \<Rightarrow> nat" where
  "nat_of_digits ds = foldl (\<lambda>a d. 10 * a + d) 0 ds"

text \<open>The number without exponent: integer digits, fraction digits, and the rest of the text.\<close>

definition number :: "string \<Rightarrow> (nat list \<times> nat list \<times> string) option" where
  "number s =
     (case s of
        [] \<Rightarrow> None
      | c # r \<Rightarrow>
          if c = CHR ''.'' then
            (case digitpart r of None \<Rightarrow> None | Some (fs, r') \<Rightarrow> Some ([], fs, r'))
          else
            (case digitpart s of
               None \<Rightarrow> None
             | Some (ns, r1) \<Rightarrow>
                 (case r1 of
                    [] \<Rightarrow> Some (ns, [], [])
                  | p # r2 \<Rightarrow>
                      if p = CHR ''.'' then
                        (case digitpart r2 of
                           None \<Rightarrow> Some (ns, [], r2)
                         | Some (fs, r3) \<Rightarrow> Some (ns, fs, r3))
                      else Some (ns, [], r1))))"

definition split_sign :: "string \<Rightarrow> bool \<times> string" where
  "split_sign s =
     (case s of
        [] \<Rightarrow> (False, [])
      | c # r \<Rightarrow> if c = CHR ''-'' then (True, r) else if c = CHR ''+'' then (False, r) else (False, s))"

text \<open>The exponent, when the whole rest of the text is one; \<open>Some 0\<close> for no rest.\<close>

definition exponent :: "string \<Rightarrow> int option" where
  "exponent s =
     (case s of
        [] \<Rightarrow> Some 0
      | c # r \<Rightarrow>
          if c = CHR ''e'' \<or> c = CHR ''E'' then
            (case split_sign r of
               (neg, r1) \<Rightarrow>
                 (case digitpart r1 of
                    Some (ds, []) \<Rightarrow> Some (if neg then - int (nat_of_digits ds) else int (nat_of_digits ds))
                  | _ \<Rightarrow> None))
          else None)"

definition pow10 :: "int \<Rightarrow> rat" where
  "pow10 e = (if 0 \<le> e then 10 ^ nat e else 1 / 10 ^ nat (- e))"

definition py_float :: "string \<Rightarrow> pyfloat option" where
  "py_float s =
     (case split_sign (strip s) of
        (neg, body) \<Rightarrow>
          if lower body = ''inf'' \<or> lower body = ''infinity'' then Some (if neg then NegInf else PosInf)
          else if lower body = ''nan'' then Some NotANumber
          else
            (case number body of
               None \<Rightarrow> None
             | Some (ns, fs, r) \<Rightarrow>
                 (case exponent r of
                    None \<Rightarrow> None
                  | Some e \<Rightarrow>
                      let m = (of_nat (nat_of_digits ns) + of_nat (nat_of_digits fs) / 10 ^ length fs) * pow10 e
                      in Some (Finite (if neg then - m else m)))))"

subsection \<open>Responses, clock, dictionaries and data frames\<close>

text \<open>
  A realtime report response: the header names and, per row, the dimension values and the
  metric values, all strings (a value that is missing is the empty string, which Python
  takes as false).
\<close>

record row =
  dimension_values :: "string list"
  metric_values :: "string list"

record response =
  dimension_headers :: "string list"
  metric_headers :: "string list"
  rows :: "row list"

text \<open>
  \<^verbatim>\<open>pd.Timestamp.now()\<close> reads the wall clock. The clock gives the values that the
  successive reads return (microseconds): \<open>clk 0\<close> is the next read, and a read leaves
  the clock shifted by one.
\<close>

type_synonym clock = "nat \<Rightarrow> int"

definition now :: "clock \<Rightarrow> int \<times> clock" where
  "now clk = (clk 0, (\<lambda>k. clk (Suc k)))"

datatype py_error = IndexError | ValueError | KeyError | ApiError

text \<open>
  A cell of a data frame: a string, a float, a timestamp, or the filler of pandas for a key
  that a row does not have. A Python dict is an association list in insertion order:
  \<open>AList.update\<close> replaces the value of a key in place and puts a new key at the end.
\<close>

datatype cell = Str string | Num pyfloat | Ts int | Missing

type_synonym pydict = "(string \<times> cell) list"

record frame =
  columns :: "string list"
  records :: "cell list list"

text \<open>\<^verbatim>\<open>pd.DataFrame()\<close>\<close>

definition empty_frame :: frame where
  "empty_frame = \<lparr>columns = [], records = []\<rparr>"

text \<open>\<^verbatim>\<open>df.empty\<close>: an axis of length 0.\<close>

definition df_empty :: "frame \<Rightarrow> bool" where
  "df_empty df = (records df = [] \<or> columns df = [])"

text \<open>
  \<^verbatim>\<open>pd.DataFrame(rows)\<close> of a list of dicts: the columns are the keys in the order in
  which they first appear; a row without a key gets the filler.
\<close>

definition add_keys :: "string list \<Rightarrow> string list \<Rightarrow> string list" where
  "add_keys cols ks = fold (\<lambda>k cs. if k \<in> set cs then cs else cs @ [k]) ks cols"

definition DataFrame :: "pydict list \<Rightarrow> frame" where
  "DataFrame ds =
     (let cols = fold (\<lambda>d cs. add_keys cs (map fst d)) ds []
      in \<lparr>columns = cols,
          records = map (\<lambda>d. map (\<lambda>c. case map_of d c of None \<Rightarrow> Missing | Some v \<Rightarrow> v) cols) ds\<rparr>)"

text \<open>The cells of the first column with a given name, \<open>None\<close> where there is no such column.\<close>

definition column :: "frame \<Rightarrow> string \<Rightarrow> cell option list" where
  "column df name = map (\<lambda>r. map_of (zip (columns df) r) name) (records df)"




subsection \<open>Normalisation: \_parse\_response\_to\_df\<close>

text \<open>
  \<^verbatim>\<open>for i, dim_value in enumerate(row.dimension_values):
      d[dim_headers[i]] = dim_value.value or '(not set)'\<close>
  An index beyond the headers raises IndexError.
\<close>

fun dim_loop :: "string list \<Rightarrow> nat \<Rightarrow> string list \<Rightarrow> pydict \<Rightarrow> py_error + pydict" where
  "dim_loop hs i [] d = Inr d"
| "dim_loop hs i (v # vs) d =
     (if i < length hs
      then dim_loop hs (Suc i) vs (AList.update (hs ! i) (Str (if v = [] then ''(not set)'' else v)) d)
      else Inl IndexError)"

text \<open>
  \<^verbatim>\<open>for i, metric_value in enumerate(row.metric_values):
      d[metric_headers[i]] = float(metric_value.value) if metric_value.value else 0.0\<close>
  The right-hand side is evaluated first: ValueError of \<^verbatim>\<open>float\<close>, then IndexError.
\<close>

fun metric_loop :: "string list \<Rightarrow> nat \<Rightarrow> string list \<Rightarrow> pydict \<Rightarrow> py_error + pydict" where
  "metric_loop hs i [] d = Inr d"
| "metric_loop hs i (v # vs) d =
     (case (if v = [] then Some (Finite 0) else py_float v) of
        None \<Rightarrow> Inl ValueError
      | Some x \<Rightarrow>
          if i < length hs then metric_loop hs (Suc i) vs (AList.update (hs ! i) (Num x) d)
          else Inl IndexError)"

text \<open>
  The body of the loop over the rows: the dict of one row; the clock is read once, after
  the values of the row have been entered.
\<close>

definition row_dict :: "string list \<Rightarrow> string list \<Rightarrow> string \<Rightarrow> row \<Rightarrow> clock \<Rightarrow> (py_error + pydict) \<times> clock" where
  "row_dict dim_hs metric_hs report_type r clk =
     (case dim_loop dim_hs 0 (dimension_values r) [] of
        Inl e \<Rightarrow> (Inl e, clk)
      | Inr d1 \<Rightarrow>
          (case metric_loop metric_hs 0 (metric_values r) d1 of
             Inl e \<Rightarrow> (Inl e, clk)
           | Inr d2 \<Rightarrow>
               (case now clk of
                  (t, clk') \<Rightarrow>
                    (Inr (AList.update ''extracted_at'' (Ts t)
                            (AList.update ''report_type'' (Str report_type) d2)), clk'))))"

fun row_loop :: "string list \<Rightarrow> string list \<Rightarrow> string \<Rightarrow> row list \<Rightarrow> clock \<Rightarrow> (py_error + pydict list) \<times> clock" where
  "row_loop dim_hs metric_hs report_type [] clk = (Inr [], clk)"
| "row_loop dim_hs metric_hs report_type (r # rs) clk =
     (case row_dict dim_hs metric_hs report_type r clk of
        (Inl e, clk') \<Rightarrow> (Inl e, clk')
      | (Inr d, clk') \<Rightarrow>
          (case row_loop dim_hs metric_hs report_type rs clk' of
             (Inl e, clk'') \<Rightarrow> (Inl e, clk'')
           | (Inr ds, clk'') \<Rightarrow> (Inr (d # ds), clk'')))"

text \<open>
  The body of the \<^verbatim>\<open>try\<close>; \<^verbatim>\<open>parse_response_to_df\<close> adds the handler, which turns
  every exception into the empty frame.
\<close>

definition parse_rows :: "response \<Rightarrow> string \<Rightarrow> clock \<Rightarrow> (py_error + pydict list) \<times> clock" where
  "parse_rows resp report_type clk =
     row_loop (map to_snake (dimension_headers resp)) (map to_snake (metric_headers resp))
       report_type (rows resp) clk"

definition parse_response_to_df :: "response \<Rightarrow> string \<Rightarrow> clock \<Rightarrow> frame \<times> clock" where
  "parse_response_to_df resp report_type clk =
     (if rows resp = [] then (empty_frame, clk)
      else
        (case parse_rows resp report_type clk of
           (Inl e, clk') \<Rightarrow> (empty_frame, clk')
         | (Inr ds, clk') \<Rightarrow> (DataFrame ds, clk')))"

subsection \<open>get\_realtime\_traffic\_sources\<close>












subsection \<open>Responses that follow the interface, and the records expected of them\<close>





subsection \<open>Sample inputs\<close>

text \<open>A clock that advances by seven microseconds between two reads.\<close>

definition tick :: clock where
  "tick k = 1000 + 7 * int k"

definition page_response :: response where
  "page_response =
     \<lparr>dimension_headers = [''unifiedScreenName'', ''country''],
      metric_headers = [''activeUsers'', ''screenPageViews''],
      rows = [\<lparr>dimension_values = [''/home'', ''US''], metric_values = [''12'', ''340'']\<rparr>,
              \<lparr>dimension_values = [[], ''DE''], metric_values = [[], ''3'']\<rparr>]\<rparr>"


subsection \<open>The interface of the traffic-source queries\<close>







section \<open>The storage gateway (scripts/postgres\_handler.py)\<close>

subsection \<open>The database and a connection to it\<close>

text \<open>
  The database as the gateway sees it: whether it refuses connections
  (\<^verbatim>\<open>psycopg2.connect\<close> raises), the base tables of the schema with their rows, the
  indexes, and the relations on which every statement raises (no permission, a lock that
  is not granted). A stored row has its extraction time (the column may be null) and its
  other fields.
\<close>

record stored =
  extracted_at :: "int option"
  payload :: "(string \<times> cell) list"

record database =
  refuses :: bool
  tables :: "(string \<times> stored list) list"
  indexes :: "string list"
  denied :: "string list"

datatype db_error = ConnectionError | StatementError string | InFailedTransaction

text \<open>
  A connection works in a transaction: statements change the working copy, \<^verbatim>\<open>commit\<close>
  makes it the database, \<^verbatim>\<open>rollback\<close> and \<^verbatim>\<open>close\<close> drop it. After a statement has
  failed the transaction is aborted: PostgreSQL refuses every further statement until
  the end of the transaction, and a commit of an aborted transaction is a rollback.
\<close>

record session =
  committed :: database
  working :: database
  aborted :: bool

definition get_connection :: "database \<Rightarrow> db_error + session" where
  "get_connection db =
     (if refuses db then Inl ConnectionError
      else Inr \<lparr>committed = db, working = db, aborted = False\<rparr>)"

definition commit :: "session \<Rightarrow> session" where
  "commit s =
     (if aborted s then s\<lparr>working := committed s, aborted := False\<rparr>
      else s\<lparr>committed := working s\<rparr>)"

definition rollback :: "session \<Rightarrow> session" where
  "rollback s = s\<lparr>working := committed s, aborted := False\<rparr>"

text \<open>\<^verbatim>\<open>cursor.close(); conn.close()\<close>: what stays is the committed database.\<close>

definition close :: "session \<Rightarrow> database" where
  "close s = committed s"

text \<open>
  A statement on the relation \<open>rel\<close>: it raises in an aborted transaction and on a
  relation that is denied (and aborts the transaction then); otherwise \<open>run\<close> gives its
  result and the new working copy, or the error of the statement itself.
\<close>

definition execute ::
  "string \<Rightarrow> (database \<Rightarrow> db_error + 'a \<times> database) \<Rightarrow> session \<Rightarrow> (db_error + 'a) \<times> session" where
  "execute rel run s =
     (if aborted s then (Inl InFailedTransaction, s)
      else if rel \<in> set (denied (working s)) then (Inl (StatementError rel), s\<lparr>aborted := True\<rparr>)
      else
        (case run (working s) of
           Inl e \<Rightarrow> (Inl e, s\<lparr>aborted := True\<rparr>)
         | Inr (x, db') \<Rightarrow> (Inr x, s\<lparr>working := db'\<rparr>)))"

text \<open>\<^verbatim>\<open>CREATE TABLE IF NOT EXISTS t (...)\<close>\<close>

definition create_table :: "string \<Rightarrow> database \<Rightarrow> db_error + unit \<times> database" where
  "create_table t db =
     Inr ((), if t \<in> fst ` set (tables db) then db else db\<lparr>tables := tables db @ [(t, [])]\<rparr>)"

definition index_name :: "string \<Rightarrow> string" where
  "index_name t = ''idx_'' @ t @ ''_extracted_at''"

text \<open>\<^verbatim>\<open>CREATE INDEX IF NOT EXISTS idx_{t}_extracted_at ON {t}(extracted_at);\<close>\<close>

definition create_index :: "string \<Rightarrow> database \<Rightarrow> db_error + unit \<times> database" where
  "create_index t db =
     (if t \<notin> fst ` set (tables db) then Inl (StatementError t)
      else Inr ((), if index_name t \<in> set (indexes db) then db
                    else db\<lparr>indexes := indexes db @ [index_name t]\<rparr>))"

text \<open>
  \<^verbatim>\<open>DELETE FROM {table} WHERE extracted_at < NOW() - INTERVAL '{hours_to_keep} hours'\<close>;
  \<open>db_now\<close> is the time of the database at the start of the transaction, in microseconds.
  A row whose extraction time is null does not satisfy the condition.
\<close>

definition cutoff :: "int \<Rightarrow> int \<Rightarrow> int" where
  "cutoff db_now hours = db_now - hours * 3600000000"

definition older_than :: "int \<Rightarrow> stored \<Rightarrow> bool" where
  "older_than c r = (case extracted_at r of None \<Rightarrow> False | Some t \<Rightarrow> t < c)"

definition delete_older :: "string \<Rightarrow> int \<Rightarrow> database \<Rightarrow> db_error + unit \<times> database" where
  "delete_older t c db =
     (if t \<notin> fst ` set (tables db) then Inl (StatementError t)
      else Inr ((), db\<lparr>tables := AList.map_entry t (filter (\<lambda>r. \<not> older_than c r)) (tables db)\<rparr>))"

text \<open>\<^verbatim>\<open>SELECT COUNT(*) FROM {table_name}\<close>\<close>

definition count_rows :: "string \<Rightarrow> database \<Rightarrow> db_error + nat \<times> database" where
  "count_rows t db =
     (case map_of (tables db) t of
        None \<Rightarrow> Inl (StatementError t)
      | Some rs \<Rightarrow> Inr (length rs, db))"

text \<open>
  The query on \<^verbatim>\<open>information_schema.tables\<close> for the base tables of the schema,
  \<^verbatim>\<open>ORDER BY table_name\<close> (in the order of the character codes).
\<close>

definition list_tables :: "database \<Rightarrow> db_error + string list \<times> database" where
  "list_tables db = Inr (sort (map fst (tables db)), db)"

subsection \<open>The handler\<close>

record handler =
  tables_to_manage :: "string list"

definition managed :: "string list" where
  "managed = [''active_users_by_page'', ''events_by_page'', ''conversions'', ''traffic_sources'', ''overview'']"

text \<open>
  A sequence of statements in a \<^verbatim>\<open>try\<close>: the first one that raises ends the sequence.
\<close>

fun execute_all :: "(session \<Rightarrow> (db_error + unit) \<times> session) list \<Rightarrow> session \<Rightarrow> (db_error + unit) \<times> session" where
  "execute_all [] s = (Inr (), s)"
| "execute_all (st # sts) s =
     (case st s of
        (Inl e, s') \<Rightarrow> (Inl e, s')
      | (Inr u, s') \<Rightarrow> execute_all sts s')"

text \<open>
  \<^verbatim>\<open>init_tables\<close>: the connection is opened before the \<^verbatim>\<open>try\<close>; the five tables are
  created, then one index per managed table; commit. An exception in the \<^verbatim>\<open>try\<close> rolls
  back and is raised again. The result is the exception or nothing, and the database.
\<close>

definition init_tables :: "handler \<Rightarrow> database \<Rightarrow> (db_error + unit) \<times> database" where
  "init_tables self db =
     (case get_connection db of
        Inl e \<Rightarrow> (Inl e, db)
      | Inr conn \<Rightarrow>
          (case execute_all
                  ([execute ''active_users_by_page'' (create_table ''active_users_by_page''),
                    execute ''events_by_page'' (create_table ''events_by_page''),
                    execute ''conversions'' (create_table ''conversions''),
                    execute ''traffic_sources'' (create_table ''traffic_sources''),
                    execute ''overview'' (create_table ''overview'')] @
                   map (\<lambda>t. execute t (create_index t)) (tables_to_manage self))
                  conn of
             (Inr u, s) \<Rightarrow> (Inr (), close (commit s))
           | (Inl e, s) \<Rightarrow> (Inl e, close (rollback s))))"

text \<open>
  \<^verbatim>\<open>__init__\<close>: the fields are set and \<^verbatim>\<open>init_tables\<close> is called; the handler exists
  only when that call has returned.
\<close>

definition PostgreSQLHandler :: "database \<Rightarrow> (db_error + handler) \<times> database" where
  "PostgreSQLHandler db =
     (let self = \<lparr>tables_to_manage = managed\<rparr>
      in case init_tables self db of
           (Inl e, db') \<Rightarrow> (Inl e, db')
         | (Inr u, db') \<Rightarrow> (Inr self, db'))"

subsection \<open>insert\_dataframe\<close>

text \<open>
  \<^verbatim>\<open>df.to_sql(table_name, self.engine, if_exists="append", index=False, method="multi")\<close>
  is a function of pandas: it is a parameter here, with the exception or nothing and the
  database as its result.
\<close>

type_synonym to_sql = "frame \<Rightarrow> string \<Rightarrow> database \<Rightarrow> (db_error + unit) \<times> database"

definition insert_dataframe :: "to_sql \<Rightarrow> handler \<Rightarrow> frame \<Rightarrow> string \<Rightarrow> database \<Rightarrow> (db_error + unit) \<times> database" where
  "insert_dataframe to_sql self df table_name db =
     (if df_empty df then (Inr (), db)
      else
        (case to_sql df table_name db of
           (Inr u, db') \<Rightarrow> (Inr (), db')
         | (Inl e, db') \<Rightarrow> (Inl e, db')))"

text \<open>The rows that a frame stands for, and the database with them appended to a table.\<close>

definition stored_of :: "string list \<Rightarrow> cell list \<Rightarrow> stored" where
  "stored_of cols r =
     \<lparr>extracted_at = (case map_of (zip cols r) ''extracted_at'' of Some (Ts t) \<Rightarrow> Some t | _ \<Rightarrow> None),
      payload = zip cols r\<rparr>"

definition append_rows :: "string \<Rightarrow> frame \<Rightarrow> database \<Rightarrow> database" where
  "append_rows t df db =
     db\<lparr>tables :=
          (if t \<in> fst ` set (tables db)
           then AList.map_entry t (\<lambda>rs. rs @ map (stored_of (columns df)) (records df)) (tables db)
           else tables db @ [(t, map (stored_of (columns df)) (records df))])\<rparr>"

text \<open>
  What the specification asks of the insertion of one batch: it is one transaction, all
  rows are appended or, on failure, the database is as it was.
\<close>

definition atomic :: "to_sql \<Rightarrow> bool" where
  "atomic to_sql =
     (\<forall>df t db. case to_sql df t db of
                  (Inr u, db') \<Rightarrow> db' = append_rows t df db
                | (Inl e, db') \<Rightarrow> db' = db)"

subsection \<open>check\_database\_status\<close>

datatype status = StatusOk "(string \<times> nat) list" | StatusError db_error

text \<open>
  \<^verbatim>\<open>for (table_name,) in tables: ... stats[table_name] = count\<close>, in the \<^verbatim>\<open>try\<close>.
\<close>

fun count_loop :: "string list \<Rightarrow> (string \<times> nat) list \<Rightarrow> session \<Rightarrow> (db_error + (string \<times> nat) list) \<times> session" where
  "count_loop [] stats s = (Inr stats, s)"
| "count_loop (t # ts) stats s =
     (case execute t (count_rows t) s of
        (Inl e, s') \<Rightarrow> (Inl e, s')
      | (Inr n, s') \<Rightarrow> count_loop ts (AList.update t n stats) s')"

text \<open>
  The connection is opened before the \<^verbatim>\<open>try\<close>: its exception is raised to the caller
  (\<open>Inl\<close>). An exception in the \<^verbatim>\<open>try\<close> is returned as the error status.
\<close>

definition check_database_status :: "handler \<Rightarrow> database \<Rightarrow> (db_error + status) \<times> database" where
  "check_database_status self db =
     (case get_connection db of
        Inl e \<Rightarrow> (Inl e, db)
      | Inr conn \<Rightarrow>
          (case execute ''information_schema.tables'' list_tables conn of
             (Inl e, s) \<Rightarrow> (Inr (StatusError e), close s)
           | (Inr ts, s) \<Rightarrow>
               (case count_loop ts [] s of
                  (Inl e, s') \<Rightarrow> (Inr (StatusError e), close s')
                | (Inr stats, s') \<Rightarrow> (Inr (StatusOk stats), close s'))))"

subsection \<open>cleanup\_old\_data\<close>

text \<open>
  \<^verbatim>\<open>for table in self.tables_to_manage: try: cursor.execute(DELETE ...) except: log\<close>
\<close>

fun delete_loop :: "string list \<Rightarrow> int \<Rightarrow> session \<Rightarrow> session" where
  "delete_loop [] c s = s"
| "delete_loop (t # ts) c s = delete_loop ts c (snd (execute t (delete_older t c) s))"

definition cleanup_old_data :: "handler \<Rightarrow> int \<Rightarrow> int \<Rightarrow> database \<Rightarrow> (db_error + unit) \<times> database" where
  "cleanup_old_data self hours_to_keep db_now db =
     (case get_connection db of
        Inl e \<Rightarrow> (Inl e, db)
      | Inr conn \<Rightarrow>
          (Inr (), close (commit (delete_loop (tables_to_manage self) (cutoff db_now hours_to_keep) conn))))"

text \<open>The statements of \<^verbatim>\<open>init_tables\<close> in the \<^verbatim>\<open>try\<close>, in order.\<close>

definition schema_statements :: "handler \<Rightarrow> (session \<Rightarrow> (db_error + unit) \<times> session) list" where
  "schema_statements self =
     [execute ''active_users_by_page'' (create_table ''active_users_by_page''),
      execute ''events_by_page'' (create_table ''events_by_page''),
      execute ''conversions'' (create_table ''conversions''),
      execute ''traffic_sources'' (create_table ''traffic_sources''),
      execute ''overview'' (create_table ''overview'')] @
     map (\<lambda>t. execute t (create_index t)) (tables_to_manage self)"

subsection \<open>Sample databases\<close>

text \<open>
  An empty database; one where every statement on \<^verbatim>\<open>overview\<close> is refused; the empty
  database after the initialisation of the schema.
\<close>

definition fresh_db :: database where
  "fresh_db = \<lparr>refuses = False, tables = [], indexes = [], denied = []\<rparr>"

definition locked_db :: database where
  "locked_db = \<lparr>refuses = False, tables = [], indexes = [], denied = [''overview'']\<rparr>"

definition ready_db :: database where
  "ready_db =
     \<lparr>refuses = False,
      tables = [(''active_users_by_page'', []), (''events_by_page'', []), (''conversions'', []),
                (''traffic_sources'', []), (''overview'', [])],
      indexes = [''idx_active_users_by_page_extracted_at'', ''idx_events_by_page_extracted_at'',
                 ''idx_conversions_extracted_at'', ''idx_traffic_sources_extracted_at'',
                 ''idx_overview_extracted_at''],
      denied = []\<rparr>"

(*DEFS-END*)

section \<open>Properties of the canonicalisation\<close>

lemma class_disj: "is_upper c \<Longrightarrow> \<not> is_lower c" "is_upper c \<Longrightarrow> \<not> is_digit c"
  "is_lower c \<Longrightarrow> \<not> is_upper c"
  by (auto simp: is_upper_def is_lower_def is_digit_def)

lemma us_class: "\<not> is_upper CHR ''_''" "\<not> is_lower CHR ''_''" "\<not> is_digit CHR ''_''"
  by (simp_all add: is_upper_def is_lower_def is_digit_def)

lemma sub_hump_step:
  "sub_hump (p # d # R) =
     p # (if (is_lower p \<or> is_digit p) \<and> is_upper d then [CHR ''_''] else []) @ sub_hump (d # R)"
  by (cases R) (auto simp: class_disj)

lemma sub_word_hd: "\<exists>R. sub_word (c # s) = c # R"
  by (cases "(c # s)" rule: sub_word.cases) auto

lemma sub_hump_lower_run:
  "\<forall>c\<in>set ls. is_lower c \<Longrightarrow> ls \<noteq> [] \<Longrightarrow> sub_hump (x # ls @ B) = x # sub_hump (ls @ B)"
  by (cases ls) (auto simp: sub_hump_step class_disj)

lemma mark_lower_run:
  "\<forall>c\<in>set ls. is_lower c \<Longrightarrow> ls \<noteq> [] \<Longrightarrow> mark p (ls @ B) = ls @ mark (last ls) B"
  by (induction ls arbitrary: p) (auto simp: sep_before_def class_disj)

lemma sub_hump_lower_run2:
  "\<forall>c\<in>set ls. is_lower c \<Longrightarrow> ls \<noteq> [] \<Longrightarrow> sub_hump (ls @ B) = butlast ls @ sub_hump (last ls # B)"
proof (induction ls)
  case Nil then show ?case by simp
next
  case (Cons a ls)
  show ?case
  proof (cases ls)
    case Nil then show ?thesis by simp
  next
    case (Cons b ls')
    have "sub_hump (a # ls @ B) = a # sub_hump (ls @ B)"
      using Cons.prems Cons by (intro sub_hump_lower_run) auto
    then show ?thesis using Cons.IH Cons.prems Cons by simp
  qed
qed

lemma sub_hump_sub_word: "sub_hump (sub_word s) = separators s"
proof (induction s rule: sub_word.induct)
  case 1 show ?case by (simp add: separators_def)
next
  case (2 c) show ?case by (simp add: separators_def)
next
  case (3 c d) show ?case by (auto simp: separators_def sep_before_def)
next
  case (4 c d e rest)
  show ?case
  proof (cases "re_dot c \<and> is_upper d \<and> is_lower e")
    case False
    obtain R where R: "sub_word (d # e # rest) = d # R" using sub_word_hd by blast
    have "sub_word (c # d # e # rest) = c # sub_word (d # e # rest)"
      by (simp only: sub_word.simps(4) False if_False)
    then have "sub_hump (sub_word (c # d # e # rest)) = sub_hump (c # d # R)"
      using R by simp
    also have "\<dots> = c # (if (is_lower c \<or> is_digit c) \<and> is_upper d then [CHR ''_''] else []) @ sub_hump (d # R)"
      by (rule sub_hump_step)
    also have "sub_hump (d # R) = separators (d # e # rest)"
      using 4(2) [OF False] R by simp
    finally show ?thesis using False by (auto simp: separators_def sep_before_def)
  next
    case True
    define tw where "tw = takeWhile is_lower (e # rest)"
    define dw where "dw = dropWhile is_lower (e # rest)"
    have tw: "\<forall>c\<in>set tw. is_lower c" "tw \<noteq> []" "tw @ dw = e # rest"
      using True by (auto simp: tw_def dw_def dest: set_takeWhileD)
    have dwh: "dw = [] \<or> (\<exists>z dw'. dw = z # dw' \<and> \<not> is_lower z)"
      unfolding dw_def by (metis hd_dropWhile list.exhaust list.sel(1))
    have IH: "sub_hump (sub_word dw) = separators dw"
      using 4(1) True by (simp add: dw_def)
    have "sub_word (c # d # e # rest) = c # CHR ''_'' # d # tw @ sub_word dw"
      using True by (simp add: tw_def dw_def)
    then have "sub_hump (sub_word (c # d # e # rest)) = sub_hump (c # CHR ''_'' # d # tw @ sub_word dw)"
      by simp
    also have "\<dots> = c # CHR ''_'' # d # sub_hump (tw @ sub_word dw)"
      using tw(1,2) by (simp add: sub_hump_step us_class sub_hump_lower_run)
    also have "sub_hump (tw @ sub_word dw) = butlast tw @ sub_hump (last tw # sub_word dw)"
      using tw by (intro sub_hump_lower_run2) auto
    also have "sub_hump (last tw # sub_word dw) = last tw # mark (last tw) dw"
    proof -
      from dwh show ?thesis
      proof
        assume "dw = []" then show ?thesis by simp
      next
        assume "\<exists>z dw'. dw = z # dw' \<and> \<not> is_lower z"
        then obtain z dw' where z: "dw = z # dw'" "\<not> is_lower z" by blast
        obtain R where R: "sub_word dw = z # R" using sub_word_hd z by blast
        have ll: "is_lower (last tw)" using tw by auto
        have "sub_hump (last tw # sub_word dw) = last tw # (if is_upper z then [CHR ''_''] else []) @ sub_hump (sub_word dw)"
          unfolding R by (subst sub_hump_step) (simp add: ll)
        then show ?thesis using IH z ll by (simp add: separators_def sep_before_def)
      qed
    qed
    finally have lhs: "sub_hump (sub_word (c # d # e # rest)) = c # CHR ''_'' # d # butlast tw @ last tw # mark (last tw) dw"
      by simp
    have "mark d (e # rest) = mark d (tw @ dw)" using tw by simp
    also have "\<dots> = tw @ mark (last tw) dw" using tw by (intro mark_lower_run) auto
    finally have "separators (c # d # e # rest) = c # CHR ''_'' # d # tw @ mark (last tw) dw"
      using True by (simp add: separators_def sep_before_def)
    moreover have "butlast tw @ last tw # mark (last tw) dw = tw @ mark (last tw) dw"
      using tw(2) append_butlast_last_id [of tw] by (metis append.assoc append_Cons append_Nil)
    ultimately show ?thesis using lhs by (simp only:)
  qed
qed

lemma of_char_lower_char:
  "(of_char (lower_char c) :: nat) =
     (let n = (of_char c :: nat)
      in if (65 \<le> n \<and> n \<le> 90) \<or> (192 \<le> n \<and> n \<le> 222 \<and> n \<noteq> 215) then n + 32 else n)"
  by (auto simp: lower_char_def Let_def)

lemma lower_char_idem: "lower_char (lower_char c) = lower_char c"
proof -
  have "(of_char (lower_char (lower_char c)) :: nat) = of_char (lower_char c)"
    by (subst of_char_lower_char) (auto simp: of_char_lower_char Let_def)
  then show ?thesis by (simp only: of_char_eq_iff)
qed

lemma lower_char_not_upper: "\<not> is_upper (lower_char c)"
  by (auto simp: is_upper_def of_char_lower_char Let_def)

lemma lower_char_dot: "lower_char c = CHR ''.'' \<longleftrightarrow> c = CHR ''.''"
proof
  assume "lower_char c = CHR ''.''"
  then have "(of_char (lower_char c) :: nat) = 46" by simp
  then have "(of_char c :: nat) = 46"
    by (auto simp: of_char_lower_char Let_def split: if_splits)
  then have "(of_char c :: nat) = of_char (CHR ''.'')" by simp
  then show "c = CHR ''.''" by (simp only: of_char_eq_iff)
next
  assume "c = CHR ''.''" then show "lower_char c = CHR ''.''" by (simp add: lower_char_def)
qed

lemma to_snake_separators: "to_snake s = lower (replace_dot (separators s))"
  by (simp add: to_snake_def sub_hump_sub_word)

lemma to_snake_no_upper: "c \<in> set (to_snake s) \<Longrightarrow> \<not> is_upper c"
  by (auto simp: to_snake_def lower_def lower_char_not_upper)

lemma to_snake_no_dot: "CHR ''.'' \<notin> set (to_snake s)"
proof
  assume "CHR ''.'' \<in> set (to_snake s)"
  then obtain y where y: "y \<in> set (replace_dot (sub_hump (sub_word s)))" "lower_char y = CHR ''.''"
    by (auto simp: to_snake_def lower_def)
  from y(2) have "y = CHR ''.''" by (simp only: lower_char_dot)
  with y(1) show False by (auto simp: replace_dot_def split: if_splits)
qed

lemma mark_no_upper: "\<forall>c\<in>set s. \<not> is_upper c \<Longrightarrow> mark p s = s"
  by (induction s arbitrary: p) (auto simp: sep_before_def)

lemma separators_no_upper: "\<forall>c\<in>set s. \<not> is_upper c \<Longrightarrow> separators s = s"
  by (auto simp: separators_def mark_no_upper split: list.splits)

lemma replace_dot_no_dot: "CHR ''.'' \<notin> set s \<Longrightarrow> replace_dot s = s"
  by (induction s) (auto simp: replace_dot_def)

lemma lower_lower: "lower (lower s) = lower s"
  by (simp add: lower_def lower_char_idem)

lemma mark_append:
  "(case w of [] \<Rightarrow> True | d # _ \<Rightarrow> \<not> is_lower d \<or> \<not> is_upper c) \<Longrightarrow>
   mark p (u @ c # w) = mark p (u @ [c]) @ mark c w"
proof (induction u arbitrary: p)
  case Nil
  then show ?case by (cases w) (auto simp: sep_before_def)
next
  case (Cons a u)
  have "sep_before p a (u @ c # w) = sep_before p a (u @ [c])"
    by (cases u) (simp_all add: sep_before_def)
  then show ?case using Cons by simp
qed

lemma separators_append:
  "(case w of [] \<Rightarrow> True | d # _ \<Rightarrow> \<not> is_lower d \<or> \<not> is_upper c) \<Longrightarrow>
   separators (u @ c # w) = separators (u @ [c]) @ mark c w"
proof (cases u)
  case Nil
  then show ?thesis by (simp add: separators_def)
next
  case (Cons a u')
  assume "case w of [] \<Rightarrow> True | d # _ \<Rightarrow> \<not> is_lower d \<or> \<not> is_upper c"
  then have "mark a (u' @ c # w) = mark a (u' @ [c]) @ mark c w" by (rule mark_append)
  then show ?thesis using Cons by (simp add: separators_def)
qed

lemma to_snake_hump:
  assumes "is_lower c \<or> is_digit c" "is_upper d"
  shows "to_snake (u @ c # d # v) = to_snake (u @ [c]) @ ''_'' @ to_snake (d # v)"
proof -
  have nu: "\<not> is_upper c" using assms(1) class_disj by blast
  have "separators (u @ c # d # v) = separators (u @ [c]) @ mark c (d # v)"
    using nu by (intro separators_append) simp
  moreover have "mark c (d # v) = CHR ''_'' # separators (d # v)"
    using assms by (auto simp: separators_def sep_before_def)
  ultimately show ?thesis by (simp add: to_snake_separators lower_def replace_dot_def lower_char_def)
qed

lemma to_snake_word:
  assumes "is_upper c" "is_upper d" "is_lower e"
  shows "to_snake (u @ c # d # e # v) = to_snake (u @ [c]) @ ''_'' @ to_snake (d # e # v)"
proof -
  have "separators (u @ c # d # e # v) = separators (u @ [c]) @ mark c (d # e # v)"
    using assms class_disj by (intro separators_append) simp
  moreover have "re_dot c" using assms(1) by (auto simp: re_dot_def is_upper_def)
  then have "mark c (d # e # v) = CHR ''_'' # separators (d # e # v)"
    using assms by (auto simp: separators_def sep_before_def)
  ultimately show ?thesis by (simp add: to_snake_separators lower_def replace_dot_def lower_char_def)
qed

lemma dot_us_class: "is_upper (dot_us c) = is_upper c" "is_lower (dot_us c) = is_lower c"
  "is_digit (dot_us c) = is_digit c" "re_dot (dot_us c) = re_dot c"
  by (auto simp: dot_us_def is_upper_def is_lower_def is_digit_def re_dot_def)

lemma sep_before_dot_us:
  "sep_before (dot_us p) (dot_us d) (map dot_us rest) = sep_before p d rest"
  by (cases rest) (simp_all add: sep_before_def dot_us_class)

lemma mark_dot_us: "mark (dot_us p) (map dot_us s) = map dot_us (mark p s)"
  by (induction s arbitrary: p) (simp_all add: sep_before_dot_us dot_us_def [of "CHR ''_''"])

lemma separators_dot_us: "separators (map dot_us s) = map dot_us (separators s)"
  by (cases s) (simp_all add: separators_def mark_dot_us)

lemma replace_dot_dot_us: "replace_dot (map dot_us s) = replace_dot s"
  by (induction s) (simp_all add: replace_dot_def dot_us_def)

lemma to_snake_map_dot_us: "to_snake (map dot_us s) = to_snake s"
proof -
  have "replace_dot (map dot_us (separators s)) = replace_dot (separators s)"
    by (rule replace_dot_dot_us)
  then show ?thesis by (simp only: to_snake_separators separators_dot_us)
qed

lemma to_snake_dot_us: "to_snake (u @ ''.'' @ v) = to_snake (u @ ''_'' @ v)"
proof -
  have "map dot_us (u @ ''.'' @ v) = map dot_us (u @ ''_'' @ v)" by (simp add: dot_us_def)
  then show ?thesis by (metis to_snake_map_dot_us)
qed

subsection \<open>C4: the examples and the rule of the canonicalisation\<close>

text \<open>
  Claim C4. \<open>to_snake\<close> reproduces the three examples of the specification. In general:
  an underscore is put between a lowercase letter or digit and a capital that follows it;
  an underscore is put between a capital and a capitalised word (a capital and a lowercase
  letter) that follows it; in both cases the text on the two sides is converted as it would
  be on its own. A dot is treated as an underscore and no dot is left in the result; the
  result is in lowercase. The last conjunct gives the place of every underscore that is put
  in (\<open>separators\<close>).
\<close>

theorem to_snake_rule:
  "to_snake ''unifiedScreenName'' = ''unified_screen_name'' \<and>
   to_snake ''eventName'' = ''event_name'' \<and>
   to_snake ''screenPageViews'' = ''screen_page_views'' \<and>
   (\<forall>u c d v. (is_lower c \<or> is_digit c) \<and> is_upper d \<longrightarrow>
      to_snake (u @ c # d # v) = to_snake (u @ [c]) @ ''_'' @ to_snake (d # v)) \<and>
   (\<forall>u c d e v. is_upper c \<and> is_upper d \<and> is_lower e \<longrightarrow>
      to_snake (u @ c # d # e # v) = to_snake (u @ [c]) @ ''_'' @ to_snake (d # e # v)) \<and>
   (\<forall>u v. to_snake (u @ ''.'' @ v) = to_snake (u @ ''_'' @ v)) \<and>
   (\<forall>s. CHR ''.'' \<notin> set (to_snake s)) \<and>
   (\<forall>s. lower (to_snake s) = to_snake s) \<and>
   (\<forall>s c. c \<in> set (to_snake s) \<longrightarrow> \<not> is_upper c) \<and>
   (\<forall>s. to_snake s = lower (replace_dot (separators s)))"
proof -
  have e1: "to_snake ''unifiedScreenName'' = ''unified_screen_name''" by code_simp
  have e2: "to_snake ''eventName'' = ''event_name''" by code_simp
  have e3: "to_snake ''screenPageViews'' = ''screen_page_views''" by code_simp
  have low: "lower (to_snake s) = to_snake s" for s
    unfolding to_snake_def by (rule lower_lower)
  show ?thesis
    using e1 e2 e3 to_snake_hump to_snake_word to_snake_dot_us to_snake_no_dot low
      to_snake_no_upper to_snake_separators
    by blast
qed

theorem to_snake_rule_witness:
  "(is_lower CHR ''t'' \<or> is_digit CHR ''t'') \<and> is_upper CHR ''N'' \<and>
   to_snake (''even'' @ CHR ''t'' # CHR ''N'' # ''ame'') = to_snake (''even'' @ ''t'') @ ''_'' @ to_snake (CHR ''N'' # ''ame'') \<and>
   is_upper CHR ''P'' \<and> is_upper CHR ''R'' \<and> is_lower CHR ''e'' \<and>
   to_snake (''HTT'' @ CHR ''P'' # CHR ''R'' # CHR ''e'' # ''ply'') =
     to_snake (''HTT'' @ ''P'') @ ''_'' @ to_snake (CHR ''R'' # CHR ''e'' # ''ply'') \<and>
   CHR ''a'' \<in> set (to_snake ''A'') \<and> \<not> is_upper CHR ''a''"
proof -
  have h1: "(is_lower CHR ''t'' \<or> is_digit CHR ''t'') \<and> is_upper CHR ''N''"
    by (simp add: is_lower_def is_upper_def)
  have h2: "is_upper CHR ''P'' \<and> is_upper CHR ''R'' \<and> is_lower CHR ''e''"
    by (simp add: is_lower_def is_upper_def)
  have h3: "CHR ''a'' \<in> set (to_snake ''A'')" by code_simp
  note r = to_snake_rule
  note r4 = r [THEN conjunct2, THEN conjunct2, THEN conjunct2, THEN conjunct1, rule_format, OF h1]
  note r5 = r [THEN conjunct2, THEN conjunct2, THEN conjunct2, THEN conjunct2, THEN conjunct1,
      rule_format, OF h2]
  note r9 = r [THEN conjunct2, THEN conjunct2, THEN conjunct2, THEN conjunct2, THEN conjunct2,
      THEN conjunct2, THEN conjunct2, THEN conjunct2, THEN conjunct1, rule_format, OF h3]
  show ?thesis using h1 h2 h3 r4 [of "''even''" "''ame''"] r5 [of "''HTT''" "''ply''"] r9
    by (simp only: simp_thms)
qed

subsection \<open>C5: the canonicalisation is idempotent\<close>

text \<open>
  Claim C5. For every string \<open>x\<close>, \<open>to_snake (to_snake x) = to_snake x\<close>: the result of
  a first conversion has no capital and no dot, so a second conversion changes nothing.
\<close>

theorem to_snake_idempotent: "to_snake (to_snake x) = to_snake x"
proof -
  let ?t = "to_snake x"
  have "separators ?t = ?t" using to_snake_no_upper by (intro separators_no_upper) blast
  moreover have "replace_dot ?t = ?t" by (rule replace_dot_no_dot) (rule to_snake_no_dot)
  moreover have "lower ?t = ?t" unfolding to_snake_def by (rule lower_lower)
  ultimately show ?thesis by (simp add: to_snake_separators [of ?t])
qed

section \<open>Properties of the normalisation\<close>

lemma row_dict_Inr:
  assumes "row_dict dhs mhs rt r clk = (Inr d, clk')"
  shows "map_of d ''report_type'' = Some (Str rt)" "map_of d ''extracted_at'' = Some (Ts (clk 0))"
    "clk' = (\<lambda>k. clk (Suc k))"
  using assms
  by (auto simp: row_dict_def now_def update_conv' split: sum.splits)

lemma row_loop_Inr:
  "row_loop dhs mhs rt rs clk = (Inr ds, clk') \<Longrightarrow>
   length ds = length rs \<and> clk' = (\<lambda>k. clk (k + length rs)) \<and>
   (\<forall>i<length rs. map_of (ds ! i) ''report_type'' = Some (Str rt) \<and>
                    map_of (ds ! i) ''extracted_at'' = Some (Ts (clk i)))"
proof (induction rs arbitrary: clk ds)
  case Nil
  then show ?case by simp
next
  case (Cons r rs)
  from Cons.prems obtain d c1 ds' where
    d: "row_dict dhs mhs rt r clk = (Inr d, c1)" and
    l: "row_loop dhs mhs rt rs c1 = (Inr ds', clk')" and
    ds: "ds = d # ds'"
    by (auto split: prod.splits sum.splits)
  note rd = row_dict_Inr [OF d]
  note ih = Cons.IH [OF l]
  have c1: "c1 = (\<lambda>k. clk (Suc k))" by (rule rd(3))
  show ?case
  proof (intro conjI allI impI)
    show "length ds = length (r # rs)" using ih ds by simp
    show "clk' = (\<lambda>k. clk (k + length (r # rs)))" using ih c1 by simp
  next
    fix i assume i: "i < length (r # rs)"
    then show "map_of (ds ! i) ''report_type'' = Some (Str rt)"
      using rd(1) ih ds by (cases i) auto
    from i show "map_of (ds ! i) ''extracted_at'' = Some (Ts (clk i))"
      using rd(2) ih ds c1 by (cases i) auto
  qed
qed

lemma set_add_keys: "set (add_keys cols ks) = set cols \<union> set ks"
  unfolding add_keys_def by (induction ks arbitrary: cols) auto

lemma set_fold_add_keys:
  "set (fold (\<lambda>d cs. add_keys cs (map fst d)) ds cs0) = set cs0 \<union> (\<Union>d\<in>set ds. fst ` set d)"
  by (induction ds arbitrary: cs0) (auto simp: set_add_keys)

lemma column_DataFrame:
  assumes "\<forall>d\<in>set ds. map_of d k \<noteq> None"
  shows "column (DataFrame ds) k = map (\<lambda>d. map_of d k) ds"
proof (cases ds)
  case Nil
  then show ?thesis by (simp add: column_def DataFrame_def)
next
  case (Cons d0 ds')
  let ?cols = "fold (\<lambda>d cs. add_keys cs (map fst d)) ds []"
  have "map_of d0 k \<noteq> None" using assms Cons by simp
  then have "k \<in> fst ` set d0" by (metis map_of_eq_None_iff)
  then have k: "k \<in> set ?cols" unfolding set_fold_add_keys using Cons by auto
  have "map_of (zip ?cols (map (\<lambda>c. case map_of d c of None \<Rightarrow> Missing | Some v \<Rightarrow> v) ?cols)) k = map_of d k"
    if "d \<in> set ds" for d
    using k assms that by (auto simp: map_of_zip_map)
  then show ?thesis by (simp add: column_def DataFrame_def Let_def)
qed

lemma parse_ok:
  assumes "rows resp \<noteq> []" "parse_rows resp rt clk = (Inr ds, clk')"
  shows "length (records (fst (parse_response_to_df resp rt clk))) = length (rows resp)"
    "column (fst (parse_response_to_df resp rt clk)) ''report_type'' =
       replicate (length (rows resp)) (Some (Str rt))"
    "column (fst (parse_response_to_df resp rt clk)) ''extracted_at'' =
       map (\<lambda>i. Some (Ts (clk i))) [0..<length (rows resp)]"
proof -
  have df: "fst (parse_response_to_df resp rt clk) = DataFrame ds"
    using assms by (simp add: parse_response_to_df_def)
  note rl = row_loop_Inr [OF assms(2) [unfolded parse_rows_def]]
  have len: "length ds = length (rows resp)" using rl by simp
  show "length (records (fst (parse_response_to_df resp rt clk))) = length (rows resp)"
    using len by (simp add: df DataFrame_def Let_def)
  have in_set: "\<exists>i<length (rows resp). d = ds ! i" if "d \<in> set ds" for d
    using that len by (metis in_set_conv_nth)
  have "column (DataFrame ds) ''report_type'' = map (\<lambda>d. map_of d ''report_type'') ds"
    using rl in_set by (intro column_DataFrame) fastforce
  also have "\<dots> = replicate (length (rows resp)) (Some (Str rt))"
    using rl len by (intro nth_equalityI) auto
  finally show "column (fst (parse_response_to_df resp rt clk)) ''report_type'' =
       replicate (length (rows resp)) (Some (Str rt))" by (simp add: df)
  have "column (DataFrame ds) ''extracted_at'' = map (\<lambda>d. map_of d ''extracted_at'') ds"
    using rl in_set by (intro column_DataFrame) fastforce
  also have "\<dots> = map (\<lambda>i. Some (Ts (clk i))) [0..<length (rows resp)]"
    using rl len by (intro nth_equalityI) auto
  finally show "column (fst (parse_response_to_df resp rt clk)) ''extracted_at'' =
       map (\<lambda>i. Some (Ts (clk i))) [0..<length (rows resp)]" by (simp add: df)
qed















subsection \<open>C1: records, report type and extraction time\<close>

text \<open>
  Claim C1, as amended. For a response with at least one row whose normalisation raises
  no exception, the frame has one record per row, every record has the report type that the
  caller gave, and the record of row \<open>i\<close> has the value of the \<open>i\<close>-th read of the clock as
  its extraction time: the clock is read once per row, not once per response.
\<close>

theorem parse_response_records:
  assumes "rows resp \<noteq> []" and "fst (parse_rows resp rt clk) = Inr ds"
  shows "length (records (fst (parse_response_to_df resp rt clk))) = length (rows resp) \<and>
    column (fst (parse_response_to_df resp rt clk)) ''report_type'' =
       replicate (length (rows resp)) (Some (Str rt)) \<and>
    column (fst (parse_response_to_df resp rt clk)) ''extracted_at'' =
       map (\<lambda>i. Some (Ts (clk i))) [0..<length (rows resp)]"
proof -
  obtain clk' where "parse_rows resp rt clk = (Inr ds, clk')"
    using assms(2) by (cases "parse_rows resp rt clk") simp
  from parse_ok [OF assms(1) this] show ?thesis by blast
qed

theorem parse_response_records_witness:
  "rows page_response \<noteq> [] \<and>
   fst (parse_rows page_response ''active_users_by_page'' tick) =
     Inr [[(''unified_screen_name'', Str ''/home''), (''country'', Str ''US''),
           (''active_users'', Num (Finite 12)), (''screen_page_views'', Num (Finite 340)),
           (''report_type'', Str ''active_users_by_page''), (''extracted_at'', Ts 1000)],
          [(''unified_screen_name'', Str ''(not set)''), (''country'', Str ''DE''),
           (''active_users'', Num (Finite 0)), (''screen_page_views'', Num (Finite 3)),
           (''report_type'', Str ''active_users_by_page''), (''extracted_at'', Ts 1007)]] \<and>
   length (records (fst (parse_response_to_df page_response ''active_users_by_page'' tick))) = 2 \<and>
   column (fst (parse_response_to_df page_response ''active_users_by_page'' tick)) ''report_type'' =
     [Some (Str ''active_users_by_page''), Some (Str ''active_users_by_page'')] \<and>
   column (fst (parse_response_to_df page_response ''active_users_by_page'' tick)) ''extracted_at'' =
     [Some (Ts (tick 0)), Some (Ts (tick 1))]"
proof -
  have h1: "rows page_response \<noteq> []" by (simp add: page_response_def)
  have h2: "fst (parse_rows page_response ''active_users_by_page'' tick) =
     Inr [[(''unified_screen_name'', Str ''/home''), (''country'', Str ''US''),
           (''active_users'', Num (Finite 12)), (''screen_page_views'', Num (Finite 340)),
           (''report_type'', Str ''active_users_by_page''), (''extracted_at'', Ts 1000)],
          [(''unified_screen_name'', Str ''(not set)''), (''country'', Str ''DE''),
           (''active_users'', Num (Finite 0)), (''screen_page_views'', Num (Finite 3)),
           (''report_type'', Str ''active_users_by_page''), (''extracted_at'', Ts 1007)]]"
    by code_simp
  have n: "length (rows page_response) = 2" by (simp add: page_response_def)
  have u: "[0..<2] = [0, Suc 0]" by (simp add: upt_conv_Cons)
  show ?thesis
    using parse_response_records [OF h1 h2] h1 h2
    by (simp add: n u numeral_2_eq_2)
qed

text \<open>
  The claim as stated fails: the two rows of the sample response are normalised without
  error, and their extraction times are two different reads of the clock.
\<close>

theorem parse_response_timestamps_differ:
  "rows page_response \<noteq> [] \<and>
   \<not> isl (fst (parse_rows page_response ''active_users_by_page'' tick)) \<and>
   column (fst (parse_response_to_df page_response ''active_users_by_page'' tick)) ''extracted_at'' =
     [Some (Ts 1000), Some (Ts 1007)]"
  by code_simp

subsection \<open>C3: sentinel, zero, and a metric value that is no float\<close>




section \<open>Properties of the traffic-source ladder\<close>



























subsection \<open>C2: the fallback ladder of the traffic-source query\<close>



section \<open>Properties of the storage gateway\<close>

lemma execute_Inr:
  assumes "execute rel run s = (Inr x, s')"
  shows "\<not> aborted s" "rel \<notin> set (denied (working s))" "\<not> aborted s'"
    "committed s' = committed s" "run (working s) = Inr (x, working s')"
  using assms by (auto simp: execute_def split: if_splits sum.splits)

lemma execute_committed: "committed (snd (execute rel run s)) = committed s"
  by (auto simp: execute_def split: sum.splits)

lemma execute_all_committed: "committed (snd (execute_all sts s)) = committed s"
  if "\<forall>st\<in>set sts. \<forall>a. committed (snd (st a)) = committed a"
  using that
proof (induction sts arbitrary: s)
  case Nil
  then show ?case by simp
next
  case (Cons st sts)
  have c: "committed (snd (st s)) = committed s" using Cons.prems by simp
  show ?case
  proof (cases "st s")
    case (Pair r s1)
    then show ?thesis using c Cons by (cases r) auto
  qed
qed

lemma execute_all_keeps:
  assumes "execute_all sts s = (Inr u, s')" "Q s"
    and "\<forall>st\<in>set sts. \<forall>a b x. st a = (Inr x, b) \<longrightarrow> Q a \<longrightarrow> Q b"
  shows "Q s'"
  using assms
proof (induction sts arbitrary: s)
  case Nil
  then show ?case by simp
next
  case (Cons st sts)
  from Cons.prems(1) obtain x s1 where st: "st s = (Inr x, s1)" and rest: "execute_all sts s1 = (Inr u, s')"
    by (auto split: prod.splits sum.splits)
  have "Q s1" using Cons.prems(2,3) st by auto
  then show ?case using Cons.IH [OF rest] Cons.prems(3) by simp
qed

lemma execute_all_reaches:
  assumes "execute_all sts s = (Inr u, s')" "st \<in> set sts"
    and "\<forall>a b x. st a = (Inr x, b) \<longrightarrow> Q b"
    and "\<forall>st\<in>set sts. \<forall>a b x. st a = (Inr x, b) \<longrightarrow> Q a \<longrightarrow> Q b"
  shows "Q s'"
  using assms(1,2,4)
proof (induction sts arbitrary: s)
  case Nil
  then show ?case by simp
next
  case (Cons st' sts)
  from Cons.prems(1) obtain x s1 where st: "st' s = (Inr x, s1)" and rest: "execute_all sts s1 = (Inr u, s')"
    by (auto split: prod.splits sum.splits)
  show ?case
  proof (cases "st = st'")
    case True
    then have "Q s1" using assms(3) st by blast
    moreover have "\<forall>st\<in>set sts. \<forall>a b x. st a = (Inr x, b) \<longrightarrow> Q a \<longrightarrow> Q b"
      using Cons.prems(3) by simp
    ultimately show ?thesis by (rule execute_all_keeps [OF rest, where Q = Q])
  next
    case False
    then have "st \<in> set sts" using Cons.prems(2) by simp
    then show ?thesis using Cons.IH [OF rest] Cons.prems(3) by simp
  qed
qed

lemma create_table_step:
  assumes "execute t (create_table t) a = (Inr x, b)"
  shows "t \<in> fst ` set (tables (working b))" "t \<notin> set (denied (working a))"
    "fst ` set (tables (working a)) \<subseteq> fst ` set (tables (working b))"
    "indexes (working b) = indexes (working a)"
    "denied (working b) = denied (working a)" "refuses (working b) = refuses (working a)"
    "map_of (tables (working a)) k = Some rs \<Longrightarrow> map_of (tables (working b)) k = Some rs"
proof -
  note e = execute_Inr [OF assms]
  have w: "working b = (if t \<in> fst ` set (tables (working a)) then working a
      else (working a)\<lparr>tables := tables (working a) @ [(t, [])]\<rparr>)"
    using e(5) by (simp add: create_table_def)
  show "t \<in> fst ` set (tables (working b))" using w by auto
  show "t \<notin> set (denied (working a))" by (rule e(2))
  show "fst ` set (tables (working a)) \<subseteq> fst ` set (tables (working b))" using w by auto
  show "indexes (working b) = indexes (working a)" using w by simp
  show "denied (working b) = denied (working a)" using w by simp
  show "refuses (working b) = refuses (working a)" using w by simp
  show "map_of (tables (working b)) k = Some rs" if "map_of (tables (working a)) k = Some rs"
    using w that by (auto simp: map_add_Some_iff)
qed

lemma create_index_step:
  assumes "execute t (create_index t) a = (Inr x, b)"
  shows "index_name t \<in> set (indexes (working b))" "t \<notin> set (denied (working a))"
    "tables (working b) = tables (working a)"
    "set (indexes (working a)) \<subseteq> set (indexes (working b))"
    "denied (working b) = denied (working a)" "refuses (working b) = refuses (working a)"
proof -
  note e = execute_Inr [OF assms]
  have w: "working b = (if index_name t \<in> set (indexes (working a)) then working a
      else (working a)\<lparr>indexes := indexes (working a) @ [index_name t]\<rparr>)"
    using e(5) by (simp add: create_index_def split: if_splits)
  show "index_name t \<in> set (indexes (working b))" using w by auto
  show "t \<notin> set (denied (working a))" by (rule e(2))
  show "tables (working b) = tables (working a)" using w by simp
  show "set (indexes (working a)) \<subseteq> set (indexes (working b))" using w by auto
  show "denied (working b) = denied (working a)" using w by simp
  show "refuses (working b) = refuses (working a)" using w by simp
qed

lemma schema_statement_form:
  assumes "st \<in> set (schema_statements self)"
  shows "(\<exists>t\<in>set managed. st = execute t (create_table t)) \<or>
         (\<exists>t\<in>set (tables_to_manage self). st = execute t (create_index t))"
  using assms by (auto simp: schema_statements_def managed_def)

lemma schema_statement_keeps:
  assumes "st \<in> set (schema_statements self)" "st a = (Inr x, b)"
  shows "\<not> aborted b"
    "fst ` set (tables (working a)) \<subseteq> fst ` set (tables (working b))"
    "set (indexes (working a)) \<subseteq> set (indexes (working b))"
    "denied (working b) = denied (working a)" "refuses (working b) = refuses (working a)"
    "map_of (tables (working a)) k = Some rs \<Longrightarrow> map_of (tables (working b)) k = Some rs"
proof -
  from schema_statement_form [OF assms(1)] consider
    t where "st = execute t (create_table t)" | t where "st = execute t (create_index t)"
    by blast
  then have "\<not> aborted b \<and>
    fst ` set (tables (working a)) \<subseteq> fst ` set (tables (working b)) \<and>
    set (indexes (working a)) \<subseteq> set (indexes (working b)) \<and>
    denied (working b) = denied (working a) \<and> refuses (working b) = refuses (working a) \<and>
    (map_of (tables (working a)) k = Some rs \<longrightarrow> map_of (tables (working b)) k = Some rs)"
  proof cases
    case 1
    then have e: "execute t (create_table t) a = (Inr x, b)" using assms(2) by simp
    show ?thesis using execute_Inr(3) [OF e] create_table_step [OF e] by simp
  next
    case 2
    then have e: "execute t (create_index t) a = (Inr x, b)" using assms(2) by simp
    show ?thesis using execute_Inr(3) [OF e] create_index_step [OF e] by simp
  qed
  then show "\<not> aborted b"
    "fst ` set (tables (working a)) \<subseteq> fst ` set (tables (working b))"
    "set (indexes (working a)) \<subseteq> set (indexes (working b))"
    "denied (working b) = denied (working a)" "refuses (working b) = refuses (working a)"
    "map_of (tables (working a)) k = Some rs \<Longrightarrow> map_of (tables (working b)) k = Some rs"
    by blast+
qed

lemma init_tables_unfold:
  "init_tables self db =
     (case get_connection db of
        Inl e \<Rightarrow> (Inl e, db)
      | Inr conn \<Rightarrow>
          (case execute_all (schema_statements self) conn of
             (Inr u, s) \<Rightarrow> (Inr (), close (commit s))
           | (Inl e, s) \<Rightarrow> (Inl e, close (rollback s))))"
  unfolding init_tables_def schema_statements_def ..

lemma schema_statements_committed:
  "committed (snd (execute_all (schema_statements self) s)) = committed s"
proof (rule execute_all_committed, intro ballI allI)
  fix st a assume "st \<in> set (schema_statements self)"
  from schema_statement_form [OF this] show "committed (snd (st a)) = committed a"
    by (auto simp: execute_committed)
qed

lemma init_tables_failure:
  assumes "fst (init_tables self db) = Inl e"
  shows "snd (init_tables self db) = db"
proof (cases "refuses db")
  case True
  then show ?thesis by (simp add: init_tables_unfold get_connection_def)
next
  case False
  let ?conn = "\<lparr>committed = db, working = db, aborted = False\<rparr>"
  obtain r s where ex: "execute_all (schema_statements self) ?conn = (r, s)" by (cases "execute_all (schema_statements self) ?conn")
  have c: "committed s = db" using schema_statements_committed [of self ?conn] ex by simp
  show ?thesis
  proof (cases r)
    case (Inl e')
    then show ?thesis using False ex c by (simp add: init_tables_unfold get_connection_def close_def rollback_def)
  next
    case (Inr u)
    then show ?thesis using False ex assms by (simp add: init_tables_unfold get_connection_def)
  qed
qed

lemma init_tables_success:
  assumes ok: "init_tables self db = (Inr u, db')" and m: "tables_to_manage self = managed"
  shows "\<not> refuses db" "\<not> refuses db'" "denied db' = denied db"
    "\<forall>t\<in>set managed. t \<in> fst ` set (tables db') \<and> index_name t \<in> set (indexes db') \<and>
                       t \<notin> set (denied db')"
    "map_of (tables db) k = Some rs \<Longrightarrow> map_of (tables db') k = Some rs"
proof -
  show nr: "\<not> refuses db" using ok by (auto simp: init_tables_unfold get_connection_def split: if_splits)
  let ?conn = "\<lparr>committed = db, working = db, aborted = False\<rparr>"
  let ?sts = "schema_statements self"
  from ok nr obtain s where ex: "execute_all ?sts ?conn = (Inr (), s)" and db': "db' = close (commit s)"
    by (auto simp: init_tables_unfold get_connection_def split: prod.splits sum.splits)
  have na: "\<not> aborted s"
    by (rule execute_all_keeps [OF ex, where Q = "\<lambda>s. \<not> aborted s"])
       (use schema_statement_keeps(1) in auto)
  have w: "db' = working s" using db' na by (simp add: close_def commit_def)
  have inv: "denied (working s) = denied db \<and> refuses (working s) = refuses db"
    by (rule execute_all_keeps [OF ex, where Q = "\<lambda>s. denied (working s) = denied db \<and> refuses (working s) = refuses db"])
       (use schema_statement_keeps(4,5) in auto)
  show "\<not> refuses db'" using inv nr w by simp
  show "denied db' = denied db" using inv w by simp
  show "map_of (tables db') k = Some rs" if "map_of (tables db) k = Some rs"
    unfolding w
    by (rule execute_all_keeps [OF ex, where Q = "\<lambda>s. map_of (tables (working s)) k = Some rs"])
       (use that schema_statement_keeps(6) in auto)
  show "\<forall>t\<in>set managed. t \<in> fst ` set (tables db') \<and> index_name t \<in> set (indexes db') \<and>
                       t \<notin> set (denied db')"
  proof
    fix t assume t: "t \<in> set managed"
    have ct: "execute t (create_table t) \<in> set ?sts"
      using t by (auto simp: schema_statements_def managed_def)
    have ci: "execute t (create_index t) \<in> set ?sts"
      using t m by (simp add: schema_statements_def)
    have 1: "t \<in> fst ` set (tables (working s))"
      by (rule execute_all_reaches [OF ex ct, where Q = "\<lambda>s. t \<in> fst ` set (tables (working s))"])
         (use create_table_step(1) schema_statement_keeps(2) in blast)+
    have 2: "index_name t \<in> set (indexes (working s))"
      by (rule execute_all_reaches [OF ex ci, where Q = "\<lambda>s. index_name t \<in> set (indexes (working s))"])
         (use create_index_step(1) schema_statement_keeps(3) in blast)+
    have 3: "t \<notin> set (denied (working s))"
    proof (rule execute_all_reaches [OF ex ct, where Q = "\<lambda>s. t \<notin> set (denied (working s))"])
      show "\<forall>a b x. execute t (create_table t) a = (Inr x, b) \<longrightarrow> t \<notin> set (denied (working b))"
        using create_table_step(2,5) by metis
      show "\<forall>st\<in>set ?sts. \<forall>a b x. st a = (Inr x, b) \<longrightarrow> t \<notin> set (denied (working a)) \<longrightarrow>
          t \<notin> set (denied (working b))"
        using schema_statement_keeps(4) by metis
    qed
    show "t \<in> fst ` set (tables db') \<and> index_name t \<in> set (indexes db') \<and> t \<notin> set (denied db')"
      using 1 2 3 w by simp
  qed
qed



subsection \<open>C10: a handler exists only with an initialised schema\<close>

text \<open>
  Claim C10. The constructor calls \<^verbatim>\<open>init_tables\<close> and gives a handler exactly when
  that call returns; when the call raises, the constructor raises the same exception and
  the database is as before. When a handler is constructed, every one of the five managed
  tables exists with its index on \<^verbatim>\<open>extracted_at\<close>, and the rows that were in the
  database are still there. A gateway operation needs a handler, so it runs on such a
  database.
\<close>

theorem handler_construction:
  "PostgreSQLHandler db =
     (case init_tables \<lparr>tables_to_manage = managed\<rparr> db of
        (Inl e, db') \<Rightarrow> (Inl e, db')
      | (Inr u, db') \<Rightarrow> (Inr \<lparr>tables_to_manage = managed\<rparr>, db')) \<and>
   (fst (init_tables \<lparr>tables_to_manage = managed\<rparr> db) = Inl e \<longrightarrow>
      PostgreSQLHandler db = (Inl e, db)) \<and>
   (PostgreSQLHandler db = (Inr self, db') \<longrightarrow>
      tables_to_manage self = managed \<and> init_tables self db = (Inr (), db') \<and>
      (\<forall>t\<in>set managed. t \<in> fst ` set (tables db') \<and> index_name t \<in> set (indexes db')) \<and>
      (\<forall>k rs. map_of (tables db) k = Some rs \<longrightarrow> map_of (tables db') k = Some rs))"
proof (intro conjI impI)
  let ?h = "\<lparr>tables_to_manage = managed\<rparr>"
  show c: "PostgreSQLHandler db =
     (case init_tables ?h db of
        (Inl e, db') \<Rightarrow> (Inl e, db')
      | (Inr u, db') \<Rightarrow> (Inr ?h, db'))"
    by (simp add: PostgreSQLHandler_def Let_def)
  {
    assume f: "fst (init_tables ?h db) = Inl e"
    then have "snd (init_tables ?h db) = db" by (rule init_tables_failure)
    with f have "init_tables ?h db = (Inl e, db)" by (metis prod.collapse)
    then show "PostgreSQLHandler db = (Inl e, db)" by (simp add: c)
  }
  assume ok: "PostgreSQLHandler db = (Inr self, db')"
  then have self: "self = ?h" and i: "init_tables ?h db = (Inr (), db')"
    by (auto simp: c split: prod.splits sum.splits)
  show "tables_to_manage self = managed" using self by simp
  show "init_tables self db = (Inr (), db')" using self i by simp
  have m: "tables_to_manage ?h = managed" by simp
  show "\<forall>t\<in>set managed. t \<in> fst ` set (tables db') \<and> index_name t \<in> set (indexes db')"
    using init_tables_success(4) [OF i m] by blast
  show "\<forall>k rs. map_of (tables db) k = Some rs \<longrightarrow> map_of (tables db') k = Some rs"
    using init_tables_success(5) [OF i m] by blast
qed

theorem handler_construction_witness:
  "fst (init_tables \<lparr>tables_to_manage = managed\<rparr> locked_db) = Inl (StatementError ''overview'') \<and>
   PostgreSQLHandler locked_db = (Inl (StatementError ''overview''), locked_db) \<and>
   PostgreSQLHandler fresh_db = (Inr \<lparr>tables_to_manage = managed\<rparr>, ready_db) \<and>
   init_tables \<lparr>tables_to_manage = managed\<rparr> fresh_db = (Inr (), ready_db) \<and>
   ''active_users_by_page'' \<in> fst ` set (tables ready_db) \<and>
   index_name ''active_users_by_page'' \<in> set (indexes ready_db) \<and>
   ''events_by_page'' \<in> fst ` set (tables ready_db) \<and>
   index_name ''events_by_page'' \<in> set (indexes ready_db) \<and>
   ''conversions'' \<in> fst ` set (tables ready_db) \<and>
   index_name ''conversions'' \<in> set (indexes ready_db) \<and>
   ''traffic_sources'' \<in> fst ` set (tables ready_db) \<and>
   index_name ''traffic_sources'' \<in> set (indexes ready_db) \<and>
   ''overview'' \<in> fst ` set (tables ready_db) \<and>
   index_name ''overview'' \<in> set (indexes ready_db)"
proof -
  have h1: "fst (init_tables \<lparr>tables_to_manage = managed\<rparr> locked_db) = Inl (StatementError ''overview'')"
    by code_simp
  have h2: "PostgreSQLHandler fresh_db = (Inr \<lparr>tables_to_manage = managed\<rparr>, ready_db)"
    by code_simp
  note t = handler_construction [of locked_db "StatementError ''overview''", THEN conjunct2, THEN conjunct1, THEN mp, OF h1]
  note u = handler_construction [of fresh_db _ "\<lparr>tables_to_manage = managed\<rparr>" ready_db,
      THEN conjunct2, THEN conjunct2, THEN mp, OF h2]
  have b: "\<forall>t\<in>set managed. t \<in> fst ` set (tables ready_db) \<and> index_name t \<in> set (indexes ready_db)"
    using u by blast
  have i: "init_tables \<lparr>tables_to_manage = managed\<rparr> fresh_db = (Inr (), ready_db)"
    using u by simp
  have m: "''active_users_by_page'' \<in> set managed" "''events_by_page'' \<in> set managed"
    "''conversions'' \<in> set managed" "''traffic_sources'' \<in> set managed" "''overview'' \<in> set managed"
    by (simp_all add: managed_def)
  show ?thesis
    using h1 h2 t i b [THEN bspec, OF m(1)] b [THEN bspec, OF m(2)] b [THEN bspec, OF m(3)]
      b [THEN bspec, OF m(4)] b [THEN bspec, OF m(5)]
    by (simp only: simp_thms)
qed

end
